theory Spec2Isabelle
  imports Main "HOL-Library.Word" "HOL-Library.Monad_Syntax"
begin

section \<open>ThreadSafeList2D: the doubly linked list of ThreadSafeList2D.h\<close>

text \<open>
  The class keeps raw pointers \<^verbatim>\<open>Node*\<close> into the free store, and what its
  operations do depends on the aliasing of \<^verbatim>\<open>head\<close>, \<^verbatim>\<open>tail\<close>,
  \<^verbatim>\<open>prev\<close> and \<^verbatim>\<open>next\<close>. The model therefore has an explicit store:
  a pointer is a 64-bit address, \<^verbatim>\<open>nullptr\<close> is the address 0, and the free store
  maps an address to the node allocated there, if any.

  Every operation returns an \<open>option\<close>. \<open>None\<close> stands for a call with no defined
  result: a loop that never returns, or an access through a pointer at which no node is
  allocated (undefined behaviour in C++). \<open>Some (r, s)\<close> is a call that comes back, with
  the state \<open>s\<close> it leaves behind and \<open>r\<close> either the returned value (\<open>Inr\<close>) or
  the exception thrown (\<open>Inl\<close>).

  The mutex is not part of the model: one call runs from its beginning to its end on
  the state it is given.
\<close>

subsection \<open>Nodes, exceptions and the state\<close>

type_synonym addr = "64 word"

text \<open>\<^verbatim>\<open>struct Node { Node* prev; T value; Node* next; }\<close>. The fields \<^verbatim>\<open>value\<close> and
  \<^verbatim>\<open>next\<close> carry a prime, their names being reserved words here.\<close>

record 'a Node =
  prev :: addr
  value' :: 'a
  next' :: addr

text \<open>The two exception types of the header, under their names there.\<close>

datatype error = AcceessViolation | ElementNotFound

text \<open>The members \<^verbatim>\<open>head\<close>, \<^verbatim>\<open>tail\<close> and \<^verbatim>\<open>size_\<close> (a \<^verbatim>\<open>size_t\<close>, so a
  64-bit word that wraps) of one instance, together with the free store.\<close>

record 'a state =
  heap :: "addr \<Rightarrow> 'a Node option"
  head :: addr
  tail :: addr
  size' :: "64 word"

type_synonym ('r, 'a) result = "((error + 'r) \<times> 'a state) option"

subsection \<open>Access through a pointer\<close>

text \<open>\<^verbatim>\<open>p->prev\<close>, \<^verbatim>\<open>p->next\<close>, \<^verbatim>\<open>p->value\<close> read; \<^verbatim>\<open>p->prev = q\<close> and
  \<^verbatim>\<open>p->next = q\<close> write. Each is undefined where no node is allocated at \<open>p\<close>.\<close>

definition get_prev :: "addr \<Rightarrow> 'a state \<Rightarrow> addr option" where
  "get_prev p s = map_option prev (heap s p)"

definition get_next :: "addr \<Rightarrow> 'a state \<Rightarrow> addr option" where
  "get_next p s = map_option next' (heap s p)"

definition get_value :: "addr \<Rightarrow> 'a state \<Rightarrow> 'a option" where
  "get_value p s = map_option value' (heap s p)"

definition set_prev :: "addr \<Rightarrow> addr \<Rightarrow> 'a state \<Rightarrow> 'a state option" where
  "set_prev p q s =
     (case heap s p of
        None \<Rightarrow> None
      | Some n \<Rightarrow> Some (s\<lparr>heap := (heap s)(p \<mapsto> n\<lparr>prev := q\<rparr>)\<rparr>))"

definition set_next :: "addr \<Rightarrow> addr \<Rightarrow> 'a state \<Rightarrow> 'a state option" where
  "set_next p q s =
     (case heap s p of
        None \<Rightarrow> None
      | Some n \<Rightarrow> Some (s\<lparr>heap := (heap s)(p \<mapsto> n\<lparr>next' := q\<rparr>)\<rparr>))"

text \<open>\<^verbatim>\<open>new Node(value, prev)\<close>: the constructor sets \<^verbatim>\<open>next\<close> to \<^verbatim>\<open>nullptr\<close>, and
  \<^verbatim>\<open>Node(value)\<close> sets \<^verbatim>\<open>prev\<close> to \<^verbatim>\<open>nullptr\<close> as well. The address \<open>node\<close> is the
  one the allocator returned: which one it is, is not the list's choice, so it is an
  argument of the two push operations. The allocator's contract is that \<open>node\<close> is not
  null and that nothing is allocated there yet. An allocation that fails
  (\<^verbatim>\<open>std::bad_alloc\<close>) is outside the model.\<close>

definition new_Node :: "addr \<Rightarrow> 'a \<Rightarrow> addr \<Rightarrow> 'a state \<Rightarrow> 'a state" where
  "new_Node node val pv s =
     s\<lparr>heap := (heap s)(node \<mapsto> \<lparr>prev = pv, value' = val, next' = 0\<rparr>)\<rparr>"

text \<open>\<^verbatim>\<open>delete p\<close>: nothing happens for \<^verbatim>\<open>nullptr\<close>; releasing an address at which
  nothing is allocated is undefined.\<close>

definition delete :: "addr \<Rightarrow> 'a state \<Rightarrow> 'a state option" where
  "delete p s =
     (if p = 0 then Some s
      else case heap s p of
             None \<Rightarrow> None
           | Some n \<Rightarrow> Some (s\<lparr>heap := (heap s)(p := None)\<rparr>))"

subsection \<open>The public operations\<close>

text \<open>The constructor: an empty list, in whatever free store \<open>h\<close> it is created.
  The operations \<^verbatim>\<open>back\<close>, \<^verbatim>\<open>size\<close>, \<^verbatim>\<open>empty\<close> and \<^verbatim>\<open>find\<close> are \<open>back_op\<close>,
  \<open>size_op\<close>, \<open>empty_op\<close> and \<open>find_node\<close> here, their names being taken.\<close>

definition ThreadSafeList2D :: "(addr \<Rightarrow> 'a Node option) \<Rightarrow> 'a state" where
  "ThreadSafeList2D h = \<lparr>heap = h, head = 0, tail = 0, size' = 0\<rparr>"

definition front :: "'a state \<Rightarrow> ('a, 'a) result" where
  "front s =
     (if head s = 0 then Some (Inl AcceessViolation, s)
      else do { v \<leftarrow> get_value (head s) s; Some (Inr v, s) })"

definition back_op :: "'a state \<Rightarrow> ('a, 'a) result" where
  "back_op s =
     (if tail s = 0 then Some (Inl AcceessViolation, s)
      else do { v \<leftarrow> get_value (tail s) s; Some (Inr v, s) })"

definition size_op :: "'a state \<Rightarrow> (64 word, 'a) result" where
  "size_op s = Some (Inr (size' s), s)"

definition empty_op :: "'a state \<Rightarrow> (bool, 'a) result" where
  "empty_op s = Some (Inr (size' s = 0), s)"

text \<open>\<^verbatim>\<open>push_front\<close>; its local \<^verbatim>\<open>tmp\<close> is never read.\<close>

definition push_front :: "addr \<Rightarrow> 'a \<Rightarrow> 'a state \<Rightarrow> (unit, 'a) result" where
  "push_front node val s = do {
     let s = new_Node node val 0 s;
     s \<leftarrow> (if head s = 0 then Some (s\<lparr>tail := node, head := node\<rparr>)
           else do {
             s \<leftarrow> set_next node (head s) s;
             let s = s\<lparr>head := node\<rparr>;
             nx \<leftarrow> get_next node s;
             set_prev nx node s
           });
     Some (Inr (), s\<lparr>size' := size' s + 1\<rparr>)
   }"

definition push_back :: "addr \<Rightarrow> 'a \<Rightarrow> 'a state \<Rightarrow> (unit, 'a) result" where
  "push_back node val s = do {
     let s = new_Node node val (tail s) s;
     s \<leftarrow> (if head s = 0 then Some (s\<lparr>tail := node, head := node\<rparr>)
           else do {
             s \<leftarrow> set_next (tail s) node s;
             Some (s\<lparr>tail := node\<rparr>)
           });
     Some (Inr (), s\<lparr>size' := size' s + 1\<rparr>)
   }"

text \<open>The private \<^verbatim>\<open>find\<close>: the first node from \<^verbatim>\<open>head\<close> whose value is \<open>val\<close>, or
  \<^verbatim>\<open>nullptr\<close>. The loop runs as long as \<^verbatim>\<open>node != nullptr\<close>.\<close>

partial_function (option) find_loop :: "(addr \<Rightarrow> 'a Node option) \<Rightarrow> 'a \<Rightarrow> addr \<Rightarrow> addr option"
  where
  "find_loop h val node =
     (if node \<noteq> 0 then
        (case h node of
           None \<Rightarrow> None
         | Some n \<Rightarrow> if value' n = val then Some node else find_loop h val (next' n))
      else Some 0)"

definition find_node :: "'a \<Rightarrow> 'a state \<Rightarrow> addr option" where
  "find_node val s = find_loop (heap s) val (head s)"

text \<open>\<^verbatim>\<open>remove\<close>; its local \<^verbatim>\<open>tmp\<close> is never read.\<close>

definition remove :: "'a \<Rightarrow> 'a state \<Rightarrow> (unit, 'a) result" where
  "remove val s = do {
     found_node \<leftarrow> find_node val s;
     if found_node \<noteq> 0 then do {
       s \<leftarrow> (if found_node = head s then do {
               nx \<leftarrow> get_next (head s) s;
               let s = s\<lparr>head := nx\<rparr>;
               s \<leftarrow> (if head s \<noteq> 0 then set_prev (head s) 0 s
                     else Some (s\<lparr>tail := 0\<rparr>));
               delete found_node s
             } else if found_node = tail s then do {
               pv \<leftarrow> get_prev (tail s) s;
               let s = s\<lparr>tail := pv\<rparr>;
               s \<leftarrow> (if tail s \<noteq> 0 then set_next (tail s) 0 s else Some s);
               delete found_node s
             } else do {
               prev_node \<leftarrow> get_prev found_node s;
               next_node \<leftarrow> get_next found_node s;
               s \<leftarrow> set_next prev_node next_node s;
               s \<leftarrow> set_prev next_node prev_node s;
               delete found_node s
             });
       Some (Inr (), s\<lparr>size' := size' s - 1\<rparr>)
     } else Some (Inl ElementNotFound, s)
   }"

text \<open>\<^verbatim>\<open>get_fwd\<close> and \<^verbatim>\<open>get_bwd\<close> (compiled under \<^verbatim>\<open>TESTING_MODE\<close>): the vector
  \<^verbatim>\<open>result\<close> grows at its end while the loop follows \<^verbatim>\<open>next\<close>, respectively
  \<^verbatim>\<open>prev\<close>.\<close>

partial_function (option) get_fwd_loop ::
  "(addr \<Rightarrow> 'a Node option) \<Rightarrow> addr \<Rightarrow> 'a list \<Rightarrow> 'a list option"
  where
  "get_fwd_loop h node result =
     (if node \<noteq> 0 then
        (case h node of
           None \<Rightarrow> None
         | Some n \<Rightarrow> get_fwd_loop h (next' n) (result @ [value' n]))
      else Some result)"

definition get_fwd :: "'a state \<Rightarrow> ('a list, 'a) result" where
  "get_fwd s = do { result \<leftarrow> get_fwd_loop (heap s) (head s) []; Some (Inr result, s) }"

partial_function (option) get_bwd_loop ::
  "(addr \<Rightarrow> 'a Node option) \<Rightarrow> addr \<Rightarrow> 'a list \<Rightarrow> 'a list option"
  where
  "get_bwd_loop h node result =
     (if node \<noteq> 0 then
        (case h node of
           None \<Rightarrow> None
         | Some n \<Rightarrow> get_bwd_loop h (prev n) (result @ [value' n]))
      else Some result)"

definition get_bwd :: "'a state \<Rightarrow> ('a list, 'a) result" where
  "get_bwd s = do { result \<leftarrow> get_bwd_loop (heap s) (tail s) []; Some (Inr result, s) }"

subsection \<open>The structure of a well-formed list\<close>

text \<open>\<open>first as q\<close> is the first address of \<open>as\<close>, and \<open>q\<close> when there is none.\<close>

definition first :: "addr list \<Rightarrow> addr \<Rightarrow> addr" where
  "first as q = (case as of [] \<Rightarrow> q | b # _ \<Rightarrow> b)"

text \<open>\<open>links h p as q\<close>: the addresses \<open>as\<close> are nodes of the store \<open>h\<close>, none of
  them null, and each one's \<^verbatim>\<open>prev\<close> is the address just before it in \<open>as\<close> and its
  \<^verbatim>\<open>next\<close> the address just after it; \<open>p\<close> stands before the first address and
  \<open>q\<close> after the last one.\<close>

primrec links :: "(addr \<Rightarrow> 'a Node option) \<Rightarrow> addr \<Rightarrow> addr list \<Rightarrow> addr \<Rightarrow> bool" where
  "links h p [] q = True"
| "links h p (a # as) q =
     (a \<noteq> 0 \<and>
      (case h a of
         None \<Rightarrow> False
       | Some n \<Rightarrow> prev n = p \<and> next' n = first as q) \<and>
      links h a as q)"

text \<open>\<open>chain h p k\<close>: the addresses met from \<open>p\<close> along \<^verbatim>\<open>next\<close>, at most \<open>k\<close> of
  them, stopping at \<^verbatim>\<open>nullptr\<close>. \<open>nodes s\<close> are the ones met from \<^verbatim>\<open>head\<close> within
  \<^verbatim>\<open>size_\<close> steps.\<close>

fun chain :: "(addr \<Rightarrow> 'a Node option) \<Rightarrow> addr \<Rightarrow> nat \<Rightarrow> addr list" where
  "chain h p 0 = []"
| "chain h p (Suc k) =
     (if p = 0 then []
      else case h p of None \<Rightarrow> [] | Some n \<Rightarrow> p # chain h (next' n) k)"

definition nodes :: "'a state \<Rightarrow> addr list" where
  "nodes s = chain (heap s) (head s) (unat (size' s))"

text \<open>
  The invariants of the data model, in the order of the specification:
  \<^item> \<^verbatim>\<open>head\<close> is null iff \<^verbatim>\<open>tail\<close> is null iff the count is 0;
  \<^item> the walk from \<^verbatim>\<open>head\<close> along \<^verbatim>\<open>next\<close> meets as many nodes as the count says,
    each of them once, the first being \<^verbatim>\<open>head\<close> and the last \<^verbatim>\<open>tail\<close> (so \<^verbatim>\<open>tail\<close>
    is reached after count - 1 steps);
  \<^item> each node's \<^verbatim>\<open>prev\<close> is its predecessor in that walk and each node's \<^verbatim>\<open>next\<close> its
    successor. The walk has two ends: \<^verbatim>\<open>next\<close> of \<^verbatim>\<open>tail\<close> and \<^verbatim>\<open>prev\<close> of
    \<^verbatim>\<open>head\<close> are null. For \<^verbatim>\<open>next\<close> this is the "no cycles" of the specification,
    and what lets the loops of \<^verbatim>\<open>find\<close> and \<^verbatim>\<open>get_fwd\<close> end; for \<^verbatim>\<open>prev\<close> it is
    what the loop of \<^verbatim>\<open>get_bwd\<close> needs, and what the constructors of \<^verbatim>\<open>Node\<close> and
    \<^verbatim>\<open>remove\<close> set up.
\<close>

definition invariants :: "'a state \<Rightarrow> bool" where
  "invariants s =
     (let as = nodes s in
        (head s = 0) = (tail s = 0) \<and> (tail s = 0) = (size' s = 0) \<and>
        length as = unat (size' s) \<and> distinct as \<and>
        (case as of [] \<Rightarrow> True | a # _ \<Rightarrow> head s = a \<and> tail s = last as) \<and>
        links (heap s) 0 as 0)"

text \<open>The same with the list of nodes named, which is the form the proofs use, and the
  values stored at a list of addresses.\<close>

definition dll :: "'a state \<Rightarrow> addr list \<Rightarrow> bool" where
  "dll s as \<longleftrightarrow>
     links (heap s) 0 as 0 \<and> distinct as \<and> head s = first as 0 \<and>
     tail s = last (0 # as) \<and> unat (size' s) = length as"

fun vals :: "(addr \<Rightarrow> 'a Node option) \<Rightarrow> addr list \<Rightarrow> 'a list" where
  "vals h [] = []"
| "vals h (a # as) = (case h a of None \<Rightarrow> vals h as | Some n \<Rightarrow> value' n # vals h as)"

subsection \<open>The states a program can reach, and the two logical states\<close>

text \<open>A state is reachable when calls of the public operations lead to it from a newly
  constructed list. The two push operations are given an address as the allocator
  returns it: not null, and not allocated.\<close>

inductive reachable :: "'a state \<Rightarrow> bool" where
  by_new: "reachable (ThreadSafeList2D h)"
| by_push_front:
    "reachable s \<Longrightarrow> node \<noteq> 0 \<Longrightarrow> heap s node = None \<Longrightarrow>
     push_front node val s = Some (r, s') \<Longrightarrow> reachable s'"
| by_push_back:
    "reachable s \<Longrightarrow> node \<noteq> 0 \<Longrightarrow> heap s node = None \<Longrightarrow>
     push_back node val s = Some (r, s') \<Longrightarrow> reachable s'"
| by_remove: "reachable s \<Longrightarrow> remove val s = Some (r, s') \<Longrightarrow> reachable s'"
| by_front: "reachable s \<Longrightarrow> front s = Some (rv, s') \<Longrightarrow> reachable s'"
| by_back: "reachable s \<Longrightarrow> back_op s = Some (rv, s') \<Longrightarrow> reachable s'"
| by_size: "reachable s \<Longrightarrow> size_op s = Some (rn, s') \<Longrightarrow> reachable s'"
| by_empty: "reachable s \<Longrightarrow> empty_op s = Some (rb, s') \<Longrightarrow> reachable s'"
| by_get_fwd: "reachable s \<Longrightarrow> get_fwd s = Some (rl, s') \<Longrightarrow> reachable s'"
| by_get_bwd: "reachable s \<Longrightarrow> get_bwd s = Some (rl, s') \<Longrightarrow> reachable s'"

datatype logical = Empty | Populated

definition logical_state :: "'a state \<Rightarrow> logical" where
  "logical_state s = (if size' s = 0 then Empty else Populated)"

subsection \<open>A list to run the operations on\<close>

text \<open>Three nodes with the values 5, 7 and 7, at addresses in no particular order.\<close>

definition example :: "int state" where
  "example =
     \<lparr>heap = [16 \<mapsto> \<lparr>prev = 0, value' = 5, next' = 48\<rparr>,
              48 \<mapsto> \<lparr>prev = 16, value' = 7, next' = 32\<rparr>,
              32 \<mapsto> \<lparr>prev = 48, value' = 7, next' = 0\<rparr>],
      head = 16, tail = 32, size' = 3\<rparr>"

text \<open>A list of one node.\<close>

definition single :: "int state" where
  "single = \<lparr>heap = [16 \<mapsto> \<lparr>prev = 0, value' = 5, next' = 0\<rparr>], head = 16, tail = 16, size' = 1\<rparr>"

section \<open>Properties of the model\<close>

subsection \<open>Linked nodes and their values\<close>

lemma first_simps [simp]: "first [] q = q" "first (a # as) q = a"
  by (simp_all add: first_def)

lemma first_in: "as \<noteq> [] \<Longrightarrow> first as q \<in> set as"
  by (cases as) (auto simp: first_def)

lemma first_append: "first (xs @ ys) q = first xs (first ys q)"
  by (cases xs) (auto simp: first_def)

lemma links_nonnull: "links h p as q \<Longrightarrow> 0 \<notin> set as"
  by (induction as arbitrary: p) auto

lemma links_alloc: "links h p as q \<Longrightarrow> a \<in> set as \<Longrightarrow> h a \<noteq> None"
  by (induction as arbitrary: p) (auto split: option.splits)

text \<open>\<open>links\<close> reads the store at the addresses of the list only, and splits where
  the list does.\<close>

lemma links_cong: "(\<And>a. a \<in> set as \<Longrightarrow> h a = h' a) \<Longrightarrow> links h p as q = links h' p as q"
  by (induction as arbitrary: p) auto

lemma links_upd_notin [simp]: "x \<notin> set as \<Longrightarrow> links (h(x := y)) p as q = links h p as q"
  by (rule links_cong) auto

lemma links_append:
  "links h p (xs @ ys) q \<longleftrightarrow> links h p xs (first ys q) \<and> links h (last (p # xs)) ys q"
  by (induction xs arbitrary: p) (auto simp: first_def split: option.splits list.splits)

lemma links_snoc:
  "links h p (as @ [a]) q \<longleftrightarrow> links h p as a \<and> a \<noteq> 0 \<and> (\<exists>n. h a = Some n \<and> prev n = last (p # as) \<and> next' n = q)"
  by (auto simp: links_append first_def split: option.splits)

lemma links_snoc2:
  "links h p (as @ [a, b]) q \<longleftrightarrow>
     links h p as a \<and> a \<noteq> 0 \<and> b \<noteq> 0 \<and>
     (\<exists>n m. h a = Some n \<and> prev n = last (p # as) \<and> next' n = b \<and>
            h b = Some m \<and> prev m = a \<and> next' m = q)"
  using links_snoc[of h p "as @ [a]" b q] links_snoc[of h p as a b] by auto

text \<open>Said of each node in turn: the \<open>i\<close>-th node is allocated and not null, its
  \<^verbatim>\<open>prev\<close> is the node before it (\<open>p\<close> for the first) and its \<^verbatim>\<open>next\<close> the node
  after it (\<open>q\<close> for the last).\<close>

lemma links_nth:
  "links h p as q \<longleftrightarrow>
     (\<forall>i<length as. as ! i \<noteq> 0 \<and>
        (\<exists>n. h (as ! i) = Some n \<and>
             prev n = (if i = 0 then p else as ! (i - 1)) \<and>
             next' n = (if Suc i < length as then as ! Suc i else q)))"
proof (induction as arbitrary: p)
  case Nil
  show ?case by simp
next
  case (Cons a as)
  have "(\<forall>i<length (a # as). (a # as) ! i \<noteq> 0 \<and>
        (\<exists>n. h ((a # as) ! i) = Some n \<and>
             prev n = (if i = 0 then p else (a # as) ! (i - 1)) \<and>
             next' n = (if Suc i < length (a # as) then (a # as) ! Suc i else q))) \<longleftrightarrow>
        (a \<noteq> 0 \<and> (\<exists>n. h a = Some n \<and> prev n = p \<and> next' n = first as q)) \<and>
        (\<forall>i<length as. as ! i \<noteq> 0 \<and>
        (\<exists>n. h (as ! i) = Some n \<and>
             prev n = (if i = 0 then a else as ! (i - 1)) \<and>
             next' n = (if Suc i < length as then as ! Suc i else q)))"
    (is "?L \<longleftrightarrow> ?A \<and> ?R")
  proof
    assume L: ?L
    from L[rule_format, of 0] have ?A by (cases as) auto
    moreover have ?R
    proof (intro allI impI)
      fix i assume "i < length as"
      with L[rule_format, of "Suc i"] show "as ! i \<noteq> 0 \<and>
        (\<exists>n. h (as ! i) = Some n \<and>
             prev n = (if i = 0 then a else as ! (i - 1)) \<and>
             next' n = (if Suc i < length as then as ! Suc i else q))"
        by (cases i) auto
    qed
    ultimately show "?A \<and> ?R" ..
  next
    assume AR: "?A \<and> ?R"
    show ?L
    proof (intro allI impI)
      fix i assume i: "i < length (a # as)"
      show "(a # as) ! i \<noteq> 0 \<and>
        (\<exists>n. h ((a # as) ! i) = Some n \<and>
             prev n = (if i = 0 then p else (a # as) ! (i - 1)) \<and>
             next' n = (if Suc i < length (a # as) then (a # as) ! Suc i else q))"
      proof (cases i)
        case 0
        with AR show ?thesis by (cases as) auto
      next
        case (Suc j)
        with i AR[THEN conjunct2, rule_format, of j] show ?thesis by (cases j) auto
      qed
    qed
  qed
  with Cons.IH[of a] show ?case by (auto split: option.splits)
qed

lemma links_chain: "links h p as q \<Longrightarrow> chain h (first as x) (length as) = as"
proof (induction as arbitrary: p x)
  case Nil
  then show ?case by simp
next
  case (Cons a as)
  from Cons.prems obtain n where n: "h a = Some n" "next' n = first as q" "a \<noteq> 0" "links h a as q"
    by (auto simp: first_def split: option.splits)
  from Cons.IH[OF n(4), of q] n show ?case by (simp add: first_def)
qed

lemma vals_cong:
  "\<forall>a\<in>set as. map_option value' (h a) = map_option value' (h' a) \<Longrightarrow> vals h as = vals h' as"
proof (induction as)
  case Nil
  then show ?case by simp
next
  case (Cons a as)
  then have "vals h as = vals h' as" and "map_option value' (h a) = map_option value' (h' a)"
    by simp_all
  then show ?case by (cases "h a"; cases "h' a") simp_all
qed

lemma vals_upd_notin [simp]: "x \<notin> set as \<Longrightarrow> vals (h(x := y)) as = vals h as"
  by (rule vals_cong) auto

lemma vals_append [simp]: "vals h (xs @ ys) = vals h xs @ vals h ys"
  by (induction xs) (auto split: option.splits)

lemma length_vals: "links h p as q \<Longrightarrow> length (vals h as) = length as"
  by (induction as arbitrary: p) (auto split: option.splits)

lemma vals_split:
  "links h p as q \<Longrightarrow> v \<in> set (vals h as) \<Longrightarrow>
   \<exists>xs a ys n. as = xs @ a # ys \<and> v \<notin> set (vals h xs) \<and> h a = Some n \<and> value' n = v"
proof (induction as arbitrary: p)
  case Nil
  then show ?case by simp
next
  case (Cons b bs)
  then obtain m where m: "h b = Some m" "links h b bs q" by (auto split: option.splits)
  show ?case
  proof (cases "value' m = v")
    case True
    with m have "b # bs = [] @ b # bs \<and> v \<notin> set (vals h []) \<and> h b = Some m \<and> value' m = v"
      by simp
    then show ?thesis by blast
  next
    case False
    with Cons.prems m have "v \<in> set (vals h bs)" by simp
    from Cons.IH[OF m(2) this] obtain xs a ys n where
      "bs = xs @ a # ys" "v \<notin> set (vals h xs)" "h a = Some n" "value' n = v" by blast
    with False m have "b # bs = (b # xs) @ a # ys \<and> v \<notin> set (vals h (b # xs)) \<and> h a = Some n \<and> value' n = v"
      by simp
    then show ?thesis by blast
  qed
qed

lemma remove1_first: "v \<notin> set xs \<Longrightarrow> remove1 v (xs @ v # ys) = xs @ ys"
  by (simp add: remove1_append)

lemma takeWhile_first: "v \<notin> set xs \<Longrightarrow> takeWhile (\<lambda>x. x \<noteq> v) (xs @ v # ys) = xs"
  by (induction xs) auto

subsection \<open>The count does not wrap\<close>

text \<open>Distinct addresses other than null are at most \<open>2 ^ 64 - 1\<close> many, which is why
  \<^verbatim>\<open>size_++\<close> on a list with one more node does not wrap.\<close>

lemma addr_list_bound:
  fixes as :: "addr list"
  assumes "distinct as" "0 \<notin> set as"
  shows "length as \<le> 2 ^ 64 - 1"
proof -
  have "set as \<subseteq> UNIV - {0}" using assms by auto
  then have "card (set as) \<le> card (UNIV - {0 :: addr})" by (intro card_mono) auto
  also have "\<dots> = 2 ^ 64 - 1" by (simp add: card_Diff_singleton card_word)
  finally show ?thesis using assms(1) by (simp add: distinct_card)
qed

lemma unat_succ: "unat (w :: 64 word) < 2 ^ 64 - 1 \<Longrightarrow> unat (w + 1) = Suc (unat w)"
  using unat_add_lem[of w 1] by simp

lemma size_one: "unat (w :: 64 word) = 1 \<longleftrightarrow> w = 1"
  by (metis unat_1 word_unat_eq_iff)

subsection \<open>The invariants, with the nodes named\<close>

text \<open>A state satisfies the invariants exactly when some list of addresses is its list
  of nodes, and that list is then \<open>nodes s\<close>.\<close>

lemma dll_nodes: "dll s as \<Longrightarrow> nodes s = as"
  unfolding dll_def nodes_def using links_chain[of "heap s" 0 as 0 0] by simp

lemma dll_invariants: "dll s as \<Longrightarrow> invariants s"
proof -
  assume d: "dll s as"
  then have n: "nodes s = as" by (rule dll_nodes)
  from d have z: "0 \<notin> set as" by (auto simp: dll_def dest: links_nonnull)
  from d have sz: "(size' s = 0) = (as = [])"
    by (auto simp: dll_def unat_eq_0[symmetric])
  from d z have hd: "(head s = 0) = (as = [])" by (cases as) (auto simp: dll_def first_def)
  from d z have tl: "(tail s = 0) = (as = [])"
    by (cases as rule: rev_cases) (auto simp: dll_def)
  from d show ?thesis
    unfolding invariants_def n Let_def using sz hd tl
    by (cases as) (auto simp: dll_def first_def)
qed

lemma invariants_dll: "invariants s \<Longrightarrow> dll s (nodes s)"
proof -
  assume i: "invariants s"
  show ?thesis
  proof (cases "nodes s")
    case Nil
    with i have "size' s = 0" by (simp add: invariants_def Let_def unat_eq_0[symmetric])
    with i Nil show ?thesis by (simp add: invariants_def Let_def dll_def first_def)
  next
    case (Cons a as)
    with i show ?thesis by (simp add: invariants_def Let_def dll_def first_def)
  qed
qed

lemma invariants_iff: "invariants s \<longleftrightarrow> (\<exists>as. dll s as)"
  using dll_invariants invariants_dll by blast

lemma dll_fresh: "dll s as \<Longrightarrow> heap s node = None \<Longrightarrow> node \<notin> set as"
  by (auto simp: dll_def dest: links_alloc)

lemma dll_size_succ:
  assumes "dll s as" "node \<noteq> 0" "node \<notin> set as"
  shows "unat (size' s + 1) = Suc (length as)"
proof -
  from assms have "distinct (node # as)" "0 \<notin> set (node # as)"
    by (auto simp: dll_def dest: links_nonnull)
  from addr_list_bound[OF this] have "length as < 2 ^ 64 - 1" by simp
  with assms(1) show ?thesis by (simp add: dll_def unat_succ)
qed

lemma dll_size_pred: "dll s as \<Longrightarrow> as \<noteq> [] \<Longrightarrow> unat (size' s - 1) = length as - 1"
proof -
  assume d: "dll s as" and ne: "as \<noteq> []"
  then have "size' s \<noteq> 0" by (auto simp: dll_def)
  from unat_minus_one[OF this] d show ?thesis by (simp add: dll_def)
qed

lemma dll_size_zero: "dll s as \<Longrightarrow> (size' s = 0) = (as = [])"
proof -
  assume "dll s as"
  then have "unat (size' s) = length as" by (simp add: dll_def)
  then show ?thesis by (metis length_0_conv unat_eq_zero)
qed

lemma invariants_ends:
  "invariants s \<Longrightarrow> size' s \<noteq> 0 \<Longrightarrow>
   nodes s ! 0 = head s \<and> nodes s ! (unat (size' s) - 1) = tail s"
proof -
  assume i: "invariants s" and z: "size' s \<noteq> 0"
  from i have d: "dll s (nodes s)" by (rule invariants_dll)
  with z dll_size_zero[OF d] have n: "nodes s \<noteq> []" "unat (size' s) = length (nodes s)"
    by (simp_all add: dll_def)
  with d show ?thesis by (cases "nodes s") (simp_all add: dll_def last_conv_nth)
qed

lemma dll_new: "dll (ThreadSafeList2D h) []"
  by (simp add: dll_def ThreadSafeList2D_def)

lemma invariants_new: "invariants (ThreadSafeList2D h)"
  using dll_new by (rule dll_invariants)

subsection \<open>The loops on a linked list\<close>

text \<open>On linked nodes each loop moves from one node to the next and ends: \<^verbatim>\<open>find\<close>
  passes the nodes that do not hold the value, the traversals collect the values.\<close>

lemma find_loop_skip:
  "links h p as q \<Longrightarrow> v \<notin> set (vals h as) \<Longrightarrow> find_loop h v (first as q) = find_loop h v q"
proof (induction as arbitrary: p)
  case Nil
  then show ?case by (simp add: first_def)
next
  case (Cons a as)
  then obtain n where n: "h a = Some n" "a \<noteq> 0" "next' n = first as q" "value' n \<noteq> v"
    "links h a as q" "v \<notin> set (vals h as)"
    by (auto simp: first_def split: option.splits)
  have "find_loop h v (first (a # as) q) = find_loop h v (first as q)"
    using n by (subst find_loop.simps) (simp add: first_def)
  with Cons.IH[OF n(5,6)] show ?case by simp
qed

lemma get_fwd_loop_links:
  "links h p as q \<Longrightarrow> get_fwd_loop h (first as q) acc = get_fwd_loop h q (acc @ vals h as)"
proof (induction as arbitrary: p acc)
  case Nil
  then show ?case by (simp add: first_def)
next
  case (Cons a as)
  then obtain n where n: "h a = Some n" "a \<noteq> 0" "next' n = first as q" "links h a as q"
    by (auto simp: first_def split: option.splits)
  have "get_fwd_loop h (first (a # as) q) acc = get_fwd_loop h (first as q) (acc @ [value' n])"
    using n by (subst get_fwd_loop.simps) (simp add: first_def)
  with Cons.IH[OF n(4)] n show ?case by simp
qed

lemma get_bwd_loop_links:
  "links h p as q \<Longrightarrow> get_bwd_loop h (last (p # as)) acc = get_bwd_loop h p (acc @ rev (vals h as))"
proof (induction as arbitrary: q acc rule: rev_induct)
  case Nil
  then show ?case by simp
next
  case (snoc a as)
  then obtain n where n: "h a = Some n" "a \<noteq> 0" "prev n = last (p # as)" "links h p as a"
    by (auto simp: links_snoc)
  have "get_bwd_loop h (last (p # as @ [a])) acc = get_bwd_loop h (last (p # as)) (acc @ [value' n])"
    using n by (subst get_bwd_loop.simps) simp
  with snoc.IH[OF n(4)] n show ?case by simp
qed

lemma get_fwd_dll: "dll s as \<Longrightarrow> get_fwd s = Some (Inr (vals (heap s) as), s)"
  using get_fwd_loop_links[of "heap s" 0 as 0 "[]"]
  by (simp add: dll_def get_fwd_def get_fwd_loop.simps[of _ 0])

lemma get_bwd_dll: "dll s as \<Longrightarrow> get_bwd s = Some (Inr (rev (vals (heap s) as)), s)"
  using get_bwd_loop_links[of "heap s" 0 as 0 "[]"]
  by (simp add: dll_def get_bwd_def get_bwd_loop.simps[of _ 0])

lemma find_node_absent:
  "dll s as \<Longrightarrow> v \<notin> set (vals (heap s) as) \<Longrightarrow> find_node v s = Some 0"
  using find_loop_skip[of "heap s" 0 as 0 v]
  by (simp add: dll_def find_node_def find_loop.simps[of _ _ 0])

lemma find_node_present:
  assumes "dll s (xs @ a # ys)" "v \<notin> set (vals (heap s) xs)" "heap s a = Some n" "value' n = v"
  shows "find_node v s = Some a"
proof -
  from assms(1) have l: "links (heap s) 0 xs a" and a: "a \<noteq> 0"
    by (auto simp: dll_def links_append)
  have "find_loop (heap s) v a = Some a"
    using a assms(3,4) by (subst find_loop.simps) simp
  with find_loop_skip[OF l assms(2)] assms(1) show ?thesis
    by (simp add: find_node_def dll_def first_append)
qed

subsection \<open>The operations on a well-formed list\<close>

text \<open>What each operation makes of the list of nodes, of their values and of the rest
  of the store.\<close>

lemma push_front_dll:
  assumes "dll s as" "node \<noteq> 0" "heap s node = None"
  shows "\<exists>s'. push_front node v s = Some (Inr (), s') \<and> dll s' (node # as) \<and>
           vals (heap s') (node # as) = v # vals (heap s) as \<and> size' s' = size' s + 1 \<and>
           (\<forall>x. x \<notin> set (node # as) \<longrightarrow> heap s' x = heap s x)"
proof -
  from assms have fr: "node \<notin> set as" by (auto dest: dll_fresh)
  from dll_size_succ[OF assms(1,2) fr] have sz: "unat (size' s + 1) = Suc (length as)" .
  show ?thesis
  proof (cases as)
    case Nil
    with assms sz show ?thesis
      by (simp add: dll_def first_def push_front_def new_Node_def)
  next
    case (Cons a as')
    with assms fr obtain na where na: "heap s a = Some na" "a \<noteq> 0" "a \<noteq> node" "a \<notin> set as'"
      by (auto simp: dll_def split: option.splits)
    with assms sz fr Cons show ?thesis
      by (auto simp: dll_def first_def push_front_def new_Node_def set_next_def get_next_def set_prev_def)
  qed
qed

lemma push_back_dll:
  assumes "dll s as" "node \<noteq> 0" "heap s node = None"
  shows "\<exists>s'. push_back node v s = Some (Inr (), s') \<and> dll s' (as @ [node]) \<and>
           vals (heap s') (as @ [node]) = vals (heap s) as @ [v] \<and> size' s' = size' s + 1 \<and>
           (\<forall>x. x \<notin> set (node # as) \<longrightarrow> heap s' x = heap s x)"
proof -
  from assms have fr: "node \<notin> set as" by (auto dest: dll_fresh)
  from dll_size_succ[OF assms(1,2) fr] have sz: "unat (size' s + 1) = Suc (length as)" .
  show ?thesis
  proof (cases as rule: rev_cases)
    case Nil
    with assms sz show ?thesis
      by (simp add: dll_def first_def push_back_def new_Node_def)
  next
    case (snoc bs t)
    with assms fr obtain nt where nt: "heap s t = Some nt" "t \<noteq> 0" "t \<noteq> node" "t \<notin> set bs"
      "links (heap s) 0 bs t" "prev nt = last (0 # bs)"
      by (auto simp: dll_def links_snoc)
    from assms snoc have hd: "head s \<noteq> 0"
      using first_in[of as 0] by (auto simp: dll_def dest: links_nonnull)
    from assms sz fr snoc nt hd show ?thesis
      by (auto simp: dll_def first_append links_snoc2 push_back_def new_Node_def set_next_def)
  qed
qed

lemma push_back_step:
  assumes "dll s as" "vals (heap s) as = vs" "node \<noteq> 0" "heap s node = None"
  shows "\<exists>s'. push_back node v s = Some (Inr (), s') \<and> dll s' (as @ [node]) \<and>
           vals (heap s') (as @ [node]) = vs @ [v] \<and>
           (\<forall>x. x \<noteq> node \<and> heap s x = None \<longrightarrow> heap s' x = None)"
proof -
  from push_back_dll[OF assms(1,3,4), of v] obtain s' where
    s': "push_back node v s = Some (Inr (), s')" "dll s' (as @ [node])"
        "vals (heap s') (as @ [node]) = vals (heap s) as @ [v]"
        "\<forall>x. x \<notin> set (node # as) \<longrightarrow> heap s' x = heap s x"
    by blast
  have "\<forall>x. x \<noteq> node \<and> heap s x = None \<longrightarrow> heap s' x = None"
    using s'(4) dll_fresh[OF assms(1)] by auto
  with s'(1,2,3) assms(2) show ?thesis by blast
qed

lemma front_dll:
  "dll s as \<Longrightarrow> front s = (case vals (heap s) as of [] \<Rightarrow> Some (Inl AcceessViolation, s) | x # _ \<Rightarrow> Some (Inr x, s))"
  by (cases as) (auto simp: dll_def front_def get_value_def split: option.splits)

lemma back_dll:
  "dll s as \<Longrightarrow> back_op s = (case rev (vals (heap s) as) of [] \<Rightarrow> Some (Inl AcceessViolation, s) | x # _ \<Rightarrow> Some (Inr x, s))"
  by (cases as rule: rev_cases) (auto simp: dll_def links_snoc back_op_def get_value_def split: option.splits)

lemma remove_absent_dll:
  "dll s as \<Longrightarrow> v \<notin> set (vals (heap s) as) \<Longrightarrow> remove v s = Some (Inl ElementNotFound, s)"
  by (simp add: remove_def find_node_absent)

lemma remove_present_dll:
  assumes "dll s (xs @ a # ys)" "v \<notin> set (vals (heap s) xs)" "heap s a = Some n" "value' n = v"
  shows "\<exists>s'. remove v s = Some (Inr (), s') \<and> dll s' (xs @ ys) \<and>
           (\<forall>x\<in>set (xs @ ys). map_option value' (heap s' x) = map_option value' (heap s x)) \<and>
           heap s' a = None \<and> size' s' = size' s - 1 \<and>
           (\<forall>x. x \<notin> set (xs @ a # ys) \<longrightarrow> heap s' x = heap s x)"
proof -
  note f = find_node_present[OF assms]
  from assms(1) have a: "a \<noteq> 0" by (auto simp: dll_def links_append)
  from dll_size_pred[OF assms(1)] have sz: "unat (size' s - 1) = length xs + length ys" by simp
  consider (head) "xs = []" | (tail) "xs \<noteq> []" "ys = []" | (mid) "xs \<noteq> []" "ys \<noteq> []" by blast
  then show ?thesis
  proof cases
    case head
    show ?thesis
    proof (cases ys)
      case Nil
      with head assms a sz f show ?thesis
        by (auto simp: dll_def remove_def get_next_def delete_def)
    next
      case (Cons y ys')
      with head assms(1,3) obtain ny where ny: "heap s y = Some ny" "y \<noteq> 0" "y \<noteq> a"
        "y \<notin> set ys'" "a \<notin> set ys'" "next' n = y" "next' ny = first ys' 0" "links (heap s) y ys' 0"
        "distinct ys'" "head s = a" "tail s = last (y # ys')"
        by (auto simp: dll_def split: option.splits)
      define S where "S = s\<lparr>head := y, heap := (heap s)(y \<mapsto> ny\<lparr>prev := 0\<rparr>, a := None), size' := size' s - 1\<rparr>"
      have r: "remove v s = Some (Inr (), S)"
        using f a ny assms(3) by (simp add: remove_def get_next_def set_prev_def delete_def S_def)
      have "dll S (xs @ ys)"
        using ny sz head Cons by (simp add: dll_def S_def)
      moreover have "\<forall>x\<in>set (xs @ ys). map_option value' (heap S x) = map_option value' (heap s x)"
        using ny head Cons by (auto simp: S_def)
      moreover have "\<forall>x. x \<notin> set (xs @ a # ys) \<longrightarrow> heap S x = heap s x"
        using head Cons by (simp add: S_def)
      moreover have "heap S a = None" "size' S = size' s - 1" by (simp_all add: S_def)
      ultimately show ?thesis using r by blast
    qed
  next
    case tail
    then obtain xs' l where xs: "xs = xs' @ [l]" by (cases xs rule: rev_cases) auto
    from xs tail assms(1,3) obtain nl where nl: "heap s l = Some nl" "l \<noteq> 0" "l \<noteq> a"
      "l \<notin> set xs'" "a \<notin> set xs'" "links (heap s) 0 xs' l" "prev nl = last (0 # xs')" "prev n = l"
      by (auto simp: dll_def links_snoc2)
    from xs tail assms(1) have ht: "head s = first xs' l" "tail s = a" "head s \<noteq> a"
      using first_in[of xs 0] by (auto simp: dll_def first_append)
    define S where "S = s\<lparr>tail := l, heap := (heap s)(l \<mapsto> nl\<lparr>next' := 0\<rparr>, a := None), size' := size' s - 1\<rparr>"
    have r: "remove v s = Some (Inr (), S)"
      using f a nl ht assms(3) by (simp add: remove_def get_prev_def set_next_def delete_def S_def)
    have "dll S xs"
      using nl ht sz assms(1) xs tail by (simp add: dll_def S_def links_snoc first_append)
    moreover have "\<forall>x\<in>set (xs @ ys). map_option value' (heap S x) = map_option value' (heap s x)"
      using nl xs tail by (auto simp: S_def)
    moreover have "\<forall>x. x \<notin> set (xs @ a # ys) \<longrightarrow> heap S x = heap s x"
      using xs by (simp add: S_def)
    moreover have "heap S a = None" "size' S = size' s - 1" by (simp_all add: S_def)
    ultimately show ?thesis using r tail by auto
  next
    case mid
    then obtain xs' l where xs: "xs = xs' @ [l]" by (cases xs rule: rev_cases) auto
    from mid obtain r ys' where ys: "ys = r # ys'" by (cases ys) auto
    from xs ys assms(1,3) obtain nl nr where nl: "heap s l = Some nl" "l \<noteq> 0" "l \<noteq> a" "l \<noteq> r"
      "l \<notin> set xs'" "a \<notin> set xs'" "r \<notin> set xs'" "l \<notin> set ys'" "a \<notin> set ys'" "r \<notin> set ys'"
      "links (heap s) 0 xs' l" "prev nl = last (0 # xs')" "prev n = l" "next' n = r"
      "heap s r = Some nr" "r \<noteq> 0" "r \<noteq> a" "next' nr = first ys' 0" "links (heap s) r ys' 0"
      "set xs' \<inter> set ys' = {}" "distinct xs'" "distinct ys'"
      by (auto simp: dll_def links_append links_snoc split: option.splits)
    from xs ys assms(1) have ht: "head s = first xs' l" "tail s = last (r # ys')" "head s \<noteq> a" "tail s \<noteq> a"
      using first_in[of xs 0] by (auto simp: dll_def first_append)
    define S where "S = s\<lparr>heap := (heap s)(l \<mapsto> nl\<lparr>next' := r\<rparr>, r \<mapsto> nr\<lparr>prev := l\<rparr>, a := None), size' := size' s - 1\<rparr>"
    have r: "remove v s = Some (Inr (), S)"
      using f a nl ht assms(3) by (simp add: remove_def get_prev_def get_next_def set_next_def set_prev_def delete_def S_def)
    have "dll S (xs @ ys)"
      using nl ht sz xs ys by (simp add: dll_def S_def links_append links_snoc first_append)
    moreover have "\<forall>x\<in>set (xs @ ys). map_option value' (heap S x) = map_option value' (heap s x)"
      using nl xs ys by (auto simp: S_def)
    moreover have "\<forall>x. x \<notin> set (xs @ a # ys) \<longrightarrow> heap S x = heap s x"
      using xs ys by (simp add: S_def)
    moreover have "heap S a = None" "size' S = size' s - 1" by (simp_all add: S_def)
    ultimately show ?thesis using r by blast
  qed
qed

lemma remove_present_first:
  assumes "dll s as" "v \<in> set (vals (heap s) as)"
  shows "\<exists>s' xs a ys. as = xs @ a # ys \<and> length xs = length (takeWhile (\<lambda>x. x \<noteq> v) (vals (heap s) as)) \<and>
           remove v s = Some (Inr (), s') \<and> dll s' (xs @ ys) \<and>
           vals (heap s') (xs @ ys) = remove1 v (vals (heap s) as) \<and>
           (\<forall>x\<in>set (xs @ ys). map_option value' (heap s' x) = map_option value' (heap s x)) \<and>
           heap s' a = None \<and> size' s' = size' s - 1 \<and> find_node v s = Some a \<and>
           (\<forall>x. x \<notin> set as \<longrightarrow> heap s' x = heap s x)"
proof -
  from assms have l: "links (heap s) 0 as 0" by (simp add: dll_def)
  from vals_split[OF l assms(2)] obtain xs a ys n where
    d: "as = xs @ a # ys" "v \<notin> set (vals (heap s) xs)" "heap s a = Some n" "value' n = v" by blast
  from l d(1) have "links (heap s) 0 xs a" by (simp add: links_append)
  then have len: "length (vals (heap s) xs) = length xs" by (rule length_vals)
  from d have v: "vals (heap s) as = vals (heap s) xs @ v # vals (heap s) ys" by simp
  from remove_present_dll[OF assms(1)[unfolded d(1)] d(2,3,4)] obtain s' where
    s': "remove v s = Some (Inr (), s')" "dll s' (xs @ ys)"
    "\<forall>x\<in>set (xs @ ys). map_option value' (heap s' x) = map_option value' (heap s x)"
    "heap s' a = None" "size' s' = size' s - 1"
    "\<forall>x. x \<notin> set (xs @ a # ys) \<longrightarrow> heap s' x = heap s x"
    by blast
  note f = find_node_present[OF assms(1)[unfolded d(1)] d(2,3,4)]
  from vals_cong[OF s'(3)] have "vals (heap s') (xs @ ys) = vals (heap s) xs @ vals (heap s) ys"
    by simp
  with v d(2) have "vals (heap s') (xs @ ys) = remove1 v (vals (heap s) as)"
    by (simp add: remove1_first)
  moreover from v d(2) len have "length xs = length (takeWhile (\<lambda>x. x \<noteq> v) (vals (heap s) as))"
    by (simp add: takeWhile_first)
  ultimately show ?thesis using d(1) s' f by blast
qed

lemma remove_dll:
  assumes "dll s as"
  shows "\<exists>r s' bs. remove v s = Some (r, s') \<and> dll s' bs \<and>
           (r = Inl ElementNotFound \<and> s' = s \<and> v \<notin> set (vals (heap s) as) \<or>
            r = Inr () \<and> Suc (length bs) = length as \<and> v \<in> set (vals (heap s) as))"
proof (cases "v \<in> set (vals (heap s) as)")
  case False
  with assms remove_absent_dll[OF assms False] show ?thesis by blast
next
  case True
  from assms have "links (heap s) 0 as 0" by (simp add: dll_def)
  from vals_split[OF this True] obtain xs a ys n where
    d: "as = xs @ a # ys" "v \<notin> set (vals (heap s) xs)" "heap s a = Some n" "value' n = v" by blast
  from remove_present_dll[OF assms[unfolded d(1)] d(2,3,4)] obtain s' where
    "remove v s = Some (Inr (), s')" "dll s' (xs @ ys)" by blast
  with d(1) True show ?thesis by force
qed

lemma front_state: "front s = Some (r, s') \<Longrightarrow> s' = s"
  by (auto simp: front_def bind_eq_Some_conv split: if_splits)

lemma back_state: "back_op s = Some (r, s') \<Longrightarrow> s' = s"
  by (auto simp: back_op_def bind_eq_Some_conv split: if_splits)

lemma get_fwd_state: "get_fwd s = Some (r, s') \<Longrightarrow> s' = s"
  by (auto simp: get_fwd_def bind_eq_Some_conv)

lemma get_bwd_state: "get_bwd s = Some (r, s') \<Longrightarrow> s' = s"
  by (auto simp: get_bwd_def bind_eq_Some_conv)

lemma push_front_invariants:
  "invariants s \<Longrightarrow> node \<noteq> 0 \<Longrightarrow> heap s node = None \<Longrightarrow>
   \<exists>s'. push_front node v s = Some (Inr (), s') \<and> invariants s'"
  using push_front_dll[of s "nodes s" node v] by (blast intro: dll_invariants dest: invariants_dll)

lemma push_back_invariants:
  "invariants s \<Longrightarrow> node \<noteq> 0 \<Longrightarrow> heap s node = None \<Longrightarrow>
   \<exists>s'. push_back node v s = Some (Inr (), s') \<and> invariants s'"
  using push_back_dll[of s "nodes s" node v] by (blast intro: dll_invariants dest: invariants_dll)

lemma remove_invariants:
  "invariants s \<Longrightarrow> \<exists>r s'. remove v s = Some (r, s') \<and> invariants s'"
  using remove_dll[of s "nodes s" v] by (blast intro: dll_invariants dest: invariants_dll)

lemma front_returns: "invariants s \<Longrightarrow> \<exists>r. front s = Some (r, s)"
  using front_dll[of s "nodes s"] by (auto dest: invariants_dll split: list.splits)

lemma back_returns: "invariants s \<Longrightarrow> \<exists>r. back_op s = Some (r, s)"
  using back_dll[of s "nodes s"] by (auto dest: invariants_dll split: list.splits)

text \<open>The invariants hold in every reachable state.\<close>

lemma reachable_invariants: "reachable s \<Longrightarrow> invariants s"
proof (induction rule: reachable.induct)
  case (by_new h)
  show ?case by (rule invariants_new)
next
  case (by_push_front s node val r s')
  with push_front_invariants[of s node val] show ?case by auto
next
  case (by_push_back s node val r s')
  with push_back_invariants[of s node val] show ?case by auto
next
  case (by_remove s val r s')
  with remove_invariants[of s val] show ?case by auto
next
  case (by_front s rv s')
  then show ?case by (auto dest: front_state)
next
  case (by_back s rv s')
  then show ?case by (auto dest: back_state)
next
  case (by_size s rn s')
  then show ?case by (auto simp: size_op_def)
next
  case (by_empty s rb s')
  then show ?case by (auto simp: empty_op_def)
next
  case (by_get_fwd s rl s')
  then show ?case by (auto dest: get_fwd_state)
next
  case (by_get_bwd s rl s')
  then show ?case by (auto dest: get_bwd_state)
qed

subsection \<open>Running the model on numerals\<close>

lemma chain_numeral:
  "chain h p (numeral k) =
     (if p = 0 then []
      else case h p of None \<Rightarrow> [] | Some n \<Rightarrow> p # chain h (next' n) (pred_numeral k))"
  by (simp add: numeral_eq_Suc)

section \<open>The claims\<close>

text \<open>C1. Every public operation, called in a state that satisfies the invariants,
  returns (with a value or an exception) and leaves a state that satisfies them again:
  \<^verbatim>\<open>push_front\<close> and \<^verbatim>\<open>push_back\<close> for every address the allocator may return,
  \<^verbatim>\<open>front\<close>, \<^verbatim>\<open>back\<close>, \<^verbatim>\<open>size\<close>, \<^verbatim>\<open>empty\<close> and \<^verbatim>\<open>remove\<close>, and the two
  traversals of the testing mode as well.\<close>

theorem operations_preserve_invariants:
  "invariants s \<Longrightarrow>
     (node \<noteq> 0 \<and> heap s node = None \<longrightarrow>
        (\<exists>s'. push_front node v s = Some (Inr (), s') \<and> invariants s') \<and>
        (\<exists>s'. push_back node v s = Some (Inr (), s') \<and> invariants s')) \<and>
     (\<exists>r s'. front s = Some (r, s') \<and> invariants s') \<and>
     (\<exists>r s'. back_op s = Some (r, s') \<and> invariants s') \<and>
     (\<exists>r s'. size_op s = Some (r, s') \<and> invariants s') \<and>
     (\<exists>r s'. empty_op s = Some (r, s') \<and> invariants s') \<and>
     (\<exists>r s'. remove w s = Some (r, s') \<and> invariants s') \<and>
     (\<exists>r s'. get_fwd s = Some (r, s') \<and> invariants s') \<and>
     (\<exists>r s'. get_bwd s = Some (r, s') \<and> invariants s')"
proof -
  assume i: "invariants s"
  then have d: "dll s (nodes s)" by (rule invariants_dll)
  have "\<exists>r s'. size_op s = Some (r, s') \<and> invariants s'" using i by (simp add: size_op_def)
  moreover have "\<exists>r s'. empty_op s = Some (r, s') \<and> invariants s'" using i by (simp add: empty_op_def)
  moreover have "\<exists>r s'. get_fwd s = Some (r, s') \<and> invariants s'" using i get_fwd_dll[OF d] by simp
  moreover have "\<exists>r s'. get_bwd s = Some (r, s') \<and> invariants s'" using i get_bwd_dll[OF d] by simp
  moreover have "\<exists>r s'. front s = Some (r, s') \<and> invariants s'" using i front_returns[OF i] by blast
  moreover have "\<exists>r s'. back_op s = Some (r, s') \<and> invariants s'" using i back_returns[OF i] by blast
  ultimately show ?thesis
    using push_front_invariants[OF i, of node v] push_back_invariants[OF i, of node v]
      remove_invariants[OF i, of w]
    by blast
qed

theorem operations_preserve_invariants_witness:
  "invariants example \<and> (64 \<noteq> (0 :: addr) \<and> heap example 64 = None) \<and>
   (\<exists>s'. push_front 64 7 example = Some (Inr (), s') \<and> invariants s') \<and>
   (\<exists>s'. push_back 64 7 example = Some (Inr (), s') \<and> invariants s') \<and>
   (\<exists>r s'. remove 7 example = Some (r, s') \<and> invariants s')"
proof -
  have i: "invariants example"
    by (simp add: invariants_def nodes_def example_def chain_numeral)
  have f: "64 \<noteq> (0 :: addr) \<and> heap example 64 = None" by (simp add: example_def)
  from operations_preserve_invariants[OF i, of 64 7 7] i f show ?thesis by simp
qed

text \<open>C2. On a well-formed list whose forward traversal is \<open>vs\<close> and holds \<open>v\<close>, let
  \<open>i\<close> be the lowest index at which \<open>vs\<close> has \<open>v\<close>. Then the scan of \<^verbatim>\<open>find\<close>
  from \<^verbatim>\<open>head\<close> stops at the \<open>i\<close>-th node, and \<^verbatim>\<open>remove(v)\<close> returns
  without an exception and leaves a well-formed list whose nodes are those of before
  without the \<open>i\<close>-th, in the same order and with the values they had; the \<open>i\<close>-th
  node is released, the count is one less, and the forward traversal is \<open>vs\<close> without
  its first \<open>v\<close> (the backward one its reverse); nothing outside the list is
  touched. The invariants of the state left say that the neighbours are linked to one
  another and that \<^verbatim>\<open>head\<close> and \<^verbatim>\<open>tail\<close> are the first and the last remaining
  node.\<close>

theorem remove_first_match:
  "invariants s \<Longrightarrow> get_fwd s = Some (Inr vs, s) \<Longrightarrow> v \<in> set vs \<Longrightarrow>
   (let i = length (takeWhile (\<lambda>x. x \<noteq> v) vs) in
      i < length vs \<and> vs ! i = v \<and> v \<notin> set (take i vs) \<and>
      find_node v s = Some (nodes s ! i) \<and>
      (\<exists>s'. remove v s = Some (Inr (), s') \<and> invariants s' \<and>
         size' s' = size' s - 1 \<and> unat (size' s) = unat (size' s') + 1 \<and>
         nodes s' = take i (nodes s) @ drop (Suc i) (nodes s) \<and>
         heap s' (nodes s ! i) = None \<and>
         (\<forall>a\<in>set (nodes s'). map_option value' (heap s' a) = map_option value' (heap s a)) \<and>
         (\<forall>a. a \<notin> set (nodes s) \<longrightarrow> heap s' a = heap s a) \<and>
         get_fwd s' = Some (Inr (take i vs @ drop (Suc i) vs), s') \<and>
         get_bwd s' = Some (Inr (rev (take i vs @ drop (Suc i) vs)), s') \<and>
         take i vs @ drop (Suc i) vs = remove1 v vs))"
proof -
  assume i: "invariants s" and g: "get_fwd s = Some (Inr vs, s)" and v: "v \<in> set vs"
  from i have d: "dll s (nodes s)" by (rule invariants_dll)
  from get_fwd_dll[OF d] g have vs: "vs = vals (heap s) (nodes s)" by simp
  define k where "k = length (takeWhile (\<lambda>x. x \<noteq> v) vs)"
  from split_list_first[OF v] obtain ys zs where yz: "vs = ys @ v # zs" "v \<notin> set ys" by blast
  then have ky: "k = length ys" by (simp add: k_def takeWhile_first)
  with yz have k: "k < length vs" "vs ! k = v" "v \<notin> set (take k vs)" by simp_all
  from remove_present_first[OF d v[unfolded vs]] obtain s' xs a ys where
    x: "nodes s = xs @ a # ys" "length xs = k" "remove v s = Some (Inr (), s')" "dll s' (xs @ ys)"
       "vals (heap s') (xs @ ys) = remove1 v vs"
       "\<forall>x\<in>set (xs @ ys). map_option value' (heap s' x) = map_option value' (heap s x)"
       "heap s' a = None" "size' s' = size' s - 1" "find_node v s = Some a"
       "\<forall>x. x \<notin> set (nodes s) \<longrightarrow> heap s' x = heap s x"
    unfolding k_def vs by blast
  from x(1,2) have n: "take k (nodes s) = xs" "drop (Suc k) (nodes s) = ys" "nodes s ! k = a"
    by auto
  from dll_nodes[OF x(4)] have n': "nodes s' = xs @ ys" .
  from d x(4) x(1) have u: "unat (size' s) = unat (size' s') + 1" by (simp add: dll_def)
  have r1: "take k vs @ drop (Suc k) vs = remove1 v vs"
    using yz ky by (simp add: remove1_first)
  have "get_fwd s' = Some (Inr (take k vs @ drop (Suc k) vs), s')"
       "get_bwd s' = Some (Inr (rev (take k vs @ drop (Suc k) vs)), s')"
    using get_fwd_dll[OF x(4)] get_bwd_dll[OF x(4)] unfolding x(5) r1 by simp_all
  with x n n' u r1 dll_invariants[OF x(4)] k show ?thesis
    unfolding Let_def k_def[symmetric] by auto
qed

theorem remove_first_match_witness:
  "invariants example \<and> get_fwd example = Some (Inr [5, 7, 7], example) \<and> 7 \<in> set [5, 7, 7 :: int] \<and>
   (\<exists>s'. remove 7 example = Some (Inr (), s') \<and> invariants s' \<and> size' s' = 2 \<and>
         nodes s' = [16, 32] \<and> heap s' 48 = None \<and>
         get_fwd s' = Some (Inr [5, 7], s') \<and> get_bwd s' = Some (Inr [7, 5], s'))"
proof -
  have i: "invariants example"
    by (simp add: invariants_def nodes_def example_def chain_numeral)
  have g: "get_fwd example = Some (Inr [5, 7, 7], example)"
    by (simp add: get_fwd_def get_fwd_loop.simps example_def)
  have v: "7 \<in> set [5, 7, 7 :: int]" by simp
  have n: "nodes example = [16, 48, 32]" "size' example - 1 = 2"
    by (simp_all add: nodes_def example_def chain_numeral)
  from remove_first_match[OF i g v] i g v n show ?thesis by (auto simp: Let_def)
qed

text \<open>C3. When no node of a well-formed list holds the value \<open>v\<close>, \<^verbatim>\<open>remove(v)\<close>
  throws \<^verbatim>\<open>ElementNotFound\<close> and the state it leaves is the state it was called in:
  the count, \<^verbatim>\<open>head\<close>, \<^verbatim>\<open>tail\<close> and every node are as before, and so are both
  traversals. The values of the nodes are given as the forward traversal \<open>vs\<close>.\<close>

theorem remove_absent_unchanged:
  "invariants s \<Longrightarrow> get_fwd s = Some (Inr vs, s) \<Longrightarrow> v \<notin> set vs \<Longrightarrow>
   remove v s = Some (Inl ElementNotFound, s)"
proof -
  assume i: "invariants s" and g: "get_fwd s = Some (Inr vs, s)" and v: "v \<notin> set vs"
  from i have d: "dll s (nodes s)" by (rule invariants_dll)
  from get_fwd_dll[OF d] g have "vs = vals (heap s) (nodes s)" by simp
  with v remove_absent_dll[OF d] show ?thesis by simp
qed

theorem remove_absent_unchanged_witness:
  "invariants example \<and> get_fwd example = Some (Inr [5, 7, 7], example) \<and>
   9 \<notin> set [5, 7, 7 :: int] \<and>
   remove 9 example = Some (Inl ElementNotFound, example)"
proof -
  have i: "invariants example"
    by (simp add: invariants_def nodes_def example_def chain_numeral)
  have g: "get_fwd example = Some (Inr [5, 7, 7], example)"
    by (simp add: get_fwd_def get_fwd_loop.simps example_def)
  have v: "9 \<notin> set [5, 7, 7 :: int]" by simp
  from remove_absent_unchanged[OF i g v] i g v show ?thesis by simp
qed

text \<open>C4. On a well-formed list, \<^verbatim>\<open>front\<close> throws \<^verbatim>\<open>AcceessViolation\<close> exactly
  when the count is 0, and otherwise returns the value of the node at \<^verbatim>\<open>head\<close>;
  \<^verbatim>\<open>back\<close> does the same with the node at \<^verbatim>\<open>tail\<close>. In each case the state after
  the call is the state before it.\<close>

theorem front_back_empty_access:
  "invariants s \<Longrightarrow>
     (size' s = 0 \<longrightarrow>
        front s = Some (Inl AcceessViolation, s) \<and> back_op s = Some (Inl AcceessViolation, s)) \<and>
     (size' s \<noteq> 0 \<longrightarrow>
        (\<exists>n m. heap s (head s) = Some n \<and> front s = Some (Inr (value' n), s) \<and>
               heap s (tail s) = Some m \<and> back_op s = Some (Inr (value' m), s)))"
proof -
  assume "invariants s"
  then have d: "dll s (nodes s)" by (rule invariants_dll)
  show ?thesis
  proof (cases "nodes s = []")
    case True
    with d dll_size_zero[OF d] have "size' s = 0" "head s = 0" "tail s = 0"
      by (simp_all add: dll_def)
    then show ?thesis by (simp add: front_def back_op_def)
  next
    case False
    with dll_size_zero[OF d] have sz: "size' s \<noteq> 0" by simp
    from d have l: "links (heap s) 0 (nodes s) 0" by (simp add: dll_def)
    from False d have "head s \<in> set (nodes s)" "tail s \<in> set (nodes s)"
      by (simp_all add: dll_def first_in)
    with l have "head s \<noteq> 0" "tail s \<noteq> 0" "heap s (head s) \<noteq> None" "heap s (tail s) \<noteq> None"
      using links_nonnull[OF l] links_alloc[OF l] by auto
    with sz show ?thesis by (auto simp: front_def back_op_def get_value_def)
  qed
qed

theorem front_back_empty_access_witness:
  "invariants example \<and> size' example \<noteq> 0 \<and>
   front example = Some (Inr 5, example) \<and> back_op example = Some (Inr 7, example) \<and>
   invariants (ThreadSafeList2D Map.empty :: int state) \<and>
   size' (ThreadSafeList2D Map.empty :: int state) = 0 \<and>
   front (ThreadSafeList2D Map.empty :: int state) =
     Some (Inl AcceessViolation, ThreadSafeList2D Map.empty) \<and>
   back_op (ThreadSafeList2D Map.empty :: int state) =
     Some (Inl AcceessViolation, ThreadSafeList2D Map.empty)"
proof -
  have i: "invariants example"
    by (simp add: invariants_def nodes_def example_def chain_numeral)
  have j: "invariants (ThreadSafeList2D Map.empty :: int state)"
    by (simp add: invariants_def nodes_def ThreadSafeList2D_def)
  have z: "size' example \<noteq> 0" "size' (ThreadSafeList2D Map.empty :: int state) = 0"
    by (simp_all add: example_def ThreadSafeList2D_def)
  from front_back_empty_access[OF i] front_back_empty_access[OF j] i j z show ?thesis
    by (auto simp: example_def)
qed

text \<open>C5. On every well-formed list, the empty one included, and for every address the
  allocator may return, \<^verbatim>\<open>push_back(v)\<close> returns without an exception, \<^verbatim>\<open>back\<close>
  then returns \<open>v\<close>, and the count has grown by one (without wrapping); likewise
  \<^verbatim>\<open>push_front(v)\<close> and \<^verbatim>\<open>front\<close>.\<close>

theorem push_then_read:
  "invariants s \<Longrightarrow> node \<noteq> 0 \<Longrightarrow> heap s node = None \<Longrightarrow>
     (\<exists>s'. push_back node v s = Some (Inr (), s') \<and> back_op s' = Some (Inr v, s') \<and>
           size' s' = size' s + 1 \<and> unat (size' s') = unat (size' s) + 1) \<and>
     (\<exists>s'. push_front node v s = Some (Inr (), s') \<and> front s' = Some (Inr v, s') \<and>
           size' s' = size' s + 1 \<and> unat (size' s') = unat (size' s) + 1)"
proof -
  assume i: "invariants s" and n: "node \<noteq> 0" "heap s node = None"
  from i have d: "dll s (nodes s)" by (rule invariants_dll)
  from push_back_dll[OF d n, of v] obtain s' where
    b: "push_back node v s = Some (Inr (), s')" "dll s' (nodes s @ [node])"
       "vals (heap s') (nodes s @ [node]) = vals (heap s) (nodes s) @ [v]" "size' s' = size' s + 1"
    by blast
  have "back_op s' = Some (Inr v, s')" using back_dll[OF b(2)] unfolding b(3) by simp
  moreover from b(2) d have "unat (size' s') = unat (size' s) + 1" by (simp add: dll_def)
  ultimately have bk: "\<exists>s'. push_back node v s = Some (Inr (), s') \<and> back_op s' = Some (Inr v, s') \<and>
           size' s' = size' s + 1 \<and> unat (size' s') = unat (size' s) + 1"
    using b(1,4) by blast
  from push_front_dll[OF d n, of v] obtain t where
    f: "push_front node v s = Some (Inr (), t)" "dll t (node # nodes s)"
       "vals (heap t) (node # nodes s) = v # vals (heap s) (nodes s)" "size' t = size' s + 1"
    by blast
  have "front t = Some (Inr v, t)" using front_dll[OF f(2)] unfolding f(3) by simp
  moreover from f(2) d have "unat (size' t) = unat (size' s) + 1" by (simp add: dll_def)
  ultimately have "\<exists>s'. push_front node v s = Some (Inr (), s') \<and> front s' = Some (Inr v, s') \<and>
           size' s' = size' s + 1 \<and> unat (size' s') = unat (size' s) + 1"
    using f(1,4) by blast
  with bk show ?thesis by blast
qed

theorem push_then_read_witness:
  "invariants example \<and> (64 :: addr) \<noteq> 0 \<and> heap example 64 = None \<and>
   (\<exists>s'. push_back 64 9 example = Some (Inr (), s') \<and> back_op s' = Some (Inr 9, s') \<and>
         size' s' = 4) \<and>
   (\<exists>s'. push_front 64 9 example = Some (Inr (), s') \<and> front s' = Some (Inr 9, s') \<and>
         size' s' = 4)"
proof -
  have i: "invariants example"
    by (simp add: invariants_def nodes_def example_def chain_numeral)
  have n: "(64 :: addr) \<noteq> 0" "heap example 64 = None" by (simp_all add: example_def)
  have z: "size' example + 1 = 4" by (simp add: example_def)
  from push_then_read[OF i n, of 9] i n z show ?thesis by auto
qed

text \<open>C6. From an empty list, whatever the free store and the four addresses the
  allocator hands out, \<^verbatim>\<open>push_back\<close> of 1, 2, 3 and 4 gives the forward traversal
  [1, 2, 3, 4] and the backward traversal [4, 3, 2, 1]; \<^verbatim>\<open>remove(4)\<close> then gives
  [1, 2, 3] and [3, 2, 1].\<close>

theorem push_back_1234_remove_4:
  fixes h :: "addr \<Rightarrow> int Node option"
  assumes "distinct [p1, p2, p3, p4]" "0 \<notin> set [p1, p2, p3, p4]"
    "\<forall>p\<in>set [p1, p2, p3, p4]. h p = None"
  shows "\<exists>s1 s2 s3 s4 s5.
     push_back p1 1 (ThreadSafeList2D h) = Some (Inr (), s1) \<and>
     push_back p2 2 s1 = Some (Inr (), s2) \<and>
     push_back p3 3 s2 = Some (Inr (), s3) \<and>
     push_back p4 4 s3 = Some (Inr (), s4) \<and>
     get_fwd s4 = Some (Inr [1, 2, 3, 4], s4) \<and>
     get_bwd s4 = Some (Inr [4, 3, 2, 1], s4) \<and>
     remove 4 s4 = Some (Inr (), s5) \<and>
     get_fwd s5 = Some (Inr [1, 2, 3], s5) \<and>
     get_bwd s5 = Some (Inr [3, 2, 1], s5)"
proof -
  have d0: "dll (ThreadSafeList2D h) []" by (rule dll_new)
  have v0: "vals (heap (ThreadSafeList2D h)) [] = []" by simp
  have h0: "heap (ThreadSafeList2D h) = h" by (simp add: ThreadSafeList2D_def)
  from assms have n: "p1 \<noteq> 0" "p2 \<noteq> 0" "p3 \<noteq> 0" "p4 \<noteq> 0" by auto
  from assms have f: "h p1 = None" "h p2 = None" "h p3 = None" "h p4 = None" by auto
  from assms(1) have ne: "p2 \<noteq> p1" "p3 \<noteq> p1" "p4 \<noteq> p1" "p3 \<noteq> p2" "p4 \<noteq> p2" "p4 \<noteq> p3"
    by auto
  from push_back_step[OF d0 v0 n(1), of 1] f(1) h0 obtain s1 where
    s1: "push_back p1 1 (ThreadSafeList2D h) = Some (Inr (), s1)" "dll s1 [p1]"
        "vals (heap s1) [p1] = [1]" "\<forall>x. x \<noteq> p1 \<and> h x = None \<longrightarrow> heap s1 x = None"
    by (auto simp del: vals.simps vals_append)
  from s1(4) f ne have f1: "heap s1 p2 = None" "heap s1 p3 = None" "heap s1 p4 = None" by auto
  from push_back_step[OF s1(2,3) n(2) f1(1), of 2] obtain s2 where
    s2: "push_back p2 2 s1 = Some (Inr (), s2)" "dll s2 [p1, p2]"
        "vals (heap s2) [p1, p2] = [1, 2]" "\<forall>x. x \<noteq> p2 \<and> heap s1 x = None \<longrightarrow> heap s2 x = None"
    by (auto simp del: vals.simps vals_append)
  from s2(4) f1 ne have f2: "heap s2 p3 = None" "heap s2 p4 = None" by auto
  from push_back_step[OF s2(2,3) n(3) f2(1), of 3] obtain s3 where
    s3: "push_back p3 3 s2 = Some (Inr (), s3)" "dll s3 [p1, p2, p3]"
        "vals (heap s3) [p1, p2, p3] = [1, 2, 3]" "\<forall>x. x \<noteq> p3 \<and> heap s2 x = None \<longrightarrow> heap s3 x = None"
    by (auto simp del: vals.simps vals_append)
  from s3(4) f2 ne have f3: "heap s3 p4 = None" by auto
  from push_back_step[OF s3(2,3) n(4) f3(1), of 4] obtain s4 where
    s4: "push_back p4 4 s3 = Some (Inr (), s4)" "dll s4 [p1, p2, p3, p4]"
        "vals (heap s4) [p1, p2, p3, p4] = [1, 2, 3, 4]"
    by (auto simp del: vals.simps vals_append)
  have g4: "get_fwd s4 = Some (Inr [1, 2, 3, 4], s4)" "get_bwd s4 = Some (Inr [4, 3, 2, 1], s4)"
    using get_fwd_dll[OF s4(2)] get_bwd_dll[OF s4(2)] unfolding s4(3) by simp_all
  have "(4 :: int) \<in> set (vals (heap s4) [p1, p2, p3, p4])" unfolding s4(3) by simp
  from remove_present_first[OF s4(2) this] obtain s5 bs where
    s5: "remove 4 s4 = Some (Inr (), s5)" "dll s5 bs"
        "vals (heap s5) bs = remove1 4 (vals (heap s4) [p1, p2, p3, p4])"
    by blast
  have g5: "get_fwd s5 = Some (Inr [1, 2, 3], s5)" "get_bwd s5 = Some (Inr [3, 2, 1], s5)"
    using get_fwd_dll[OF s5(2)] get_bwd_dll[OF s5(2)] unfolding s5(3) s4(3) by simp_all
  from s1(1) s2(1) s3(1) s4(1) g4 s5(1) g5 show ?thesis by blast
qed

theorem push_back_1234_remove_4_witness:
  "distinct [16, 32, 48, 64 :: addr] \<and> 0 \<notin> set [16, 32, 48, 64 :: addr] \<and>
   (\<exists>s1 s2 s3 s4 s5.
     push_back 16 1 (ThreadSafeList2D Map.empty) = Some (Inr (), s1) \<and>
     push_back 32 2 s1 = Some (Inr (), s2) \<and>
     push_back 48 3 s2 = Some (Inr (), s3) \<and>
     push_back 64 4 s3 = Some (Inr (), s4) \<and>
     get_fwd s4 = Some (Inr [1, 2, 3, 4 :: int], s4) \<and>
     get_bwd s4 = Some (Inr [4, 3, 2, 1], s4) \<and>
     remove 4 s4 = Some (Inr (), s5) \<and>
     get_fwd s5 = Some (Inr [1, 2, 3], s5) \<and>
     get_bwd s5 = Some (Inr [3, 2, 1], s5))"
proof -
  have a: "distinct [16, 32, 48, 64 :: addr]" by simp
  have b: "0 \<notin> set [16, 32, 48, 64 :: addr]" by simp
  have c: "\<forall>p\<in>set [16, 32, 48, 64 :: addr]. (Map.empty :: addr \<Rightarrow> int Node option) p = None"
    by simp
  from push_back_1234_remove_4[OF a b c] a b c show ?thesis by blast
qed

text \<open>C7. In every state, reachable or not, \<^verbatim>\<open>size\<close> and \<^verbatim>\<open>empty\<close> return without
  an exception and leave the state as it is, and \<^verbatim>\<open>empty\<close> returns true exactly when
  \<^verbatim>\<open>size\<close> returns 0.\<close>

theorem empty_iff_size_zero:
  "\<exists>n b. size_op s = Some (Inr n, s) \<and> empty_op s = Some (Inr b, s) \<and> b = (n = 0)"
  by (simp add: size_op_def empty_op_def)

text \<open>C8. The logical state is Empty when the count is 0 and Populated otherwise. On a
  well-formed list with the forward traversal \<open>vs\<close>:
  \<^item> the state is Empty exactly when \<open>vs\<close> is empty, and \<^verbatim>\<open>head\<close> and \<^verbatim>\<open>tail\<close> are
    null then;
  \<^item> both push operations return and end in Populated, from Empty as from Populated;
  \<^item> \<^verbatim>\<open>front\<close>, \<^verbatim>\<open>back\<close>, \<^verbatim>\<open>size\<close> and \<^verbatim>\<open>empty\<close> leave the state itself as it is;
  \<^item> \<^verbatim>\<open>remove(w)\<close> with \<open>w\<close> not in \<open>vs\<close>, which is every \<^verbatim>\<open>remove\<close> in Empty,
    throws and leaves the state as it is;
  \<^item> \<^verbatim>\<open>remove(w)\<close> with \<open>w\<close> in \<open>vs\<close> starts in Populated, returns with the count
    one less, and ends in Empty exactly when the count was 1;
  \<^item> at count 1 that transition does happen: \<open>vs\<close> is one value, and removing it ends
    in Empty.
  So Empty is left by the push operations only, and Populated by a \<^verbatim>\<open>remove\<close> of the
  last remaining element only.\<close>

theorem logical_state_transitions:
  "invariants s \<Longrightarrow>
     (logical_state s = Empty \<longrightarrow> head s = 0 \<and> tail s = 0) \<and>
     (node \<noteq> 0 \<and> heap s node = None \<longrightarrow>
        (\<exists>s'. push_front node v s = Some (Inr (), s') \<and> invariants s' \<and>
              logical_state s' = Populated) \<and>
        (\<exists>s'. push_back node v s = Some (Inr (), s') \<and> invariants s' \<and>
              logical_state s' = Populated)) \<and>
     (\<exists>r. front s = Some (r, s)) \<and> (\<exists>r. back_op s = Some (r, s)) \<and>
     (\<exists>r. size_op s = Some (r, s)) \<and> (\<exists>r. empty_op s = Some (r, s)) \<and>
     (\<exists>vs. get_fwd s = Some (Inr vs, s) \<and> length vs = unat (size' s) \<and>
        (logical_state s = Empty) = (vs = []) \<and>
        (w \<notin> set vs \<longrightarrow> remove w s = Some (Inl ElementNotFound, s)) \<and>
        (w \<in> set vs \<longrightarrow>
           logical_state s = Populated \<and>
           (\<exists>s'. remove w s = Some (Inr (), s') \<and> invariants s' \<and>
                 size' s' = size' s - 1 \<and>
                 logical_state s' = (if size' s = 1 then Empty else Populated))) \<and>
        (size' s = 1 \<longrightarrow>
           (\<exists>x s'. vs = [x] \<and> remove x s = Some (Inr (), s') \<and> logical_state s' = Empty)))"
proof -
  assume i: "invariants s"
  then have d: "dll s (nodes s)" by (rule invariants_dll)
  have e: "logical_state s = Empty \<longrightarrow> head s = 0 \<and> tail s = 0"
    using d dll_size_zero[OF d] by (auto simp: logical_state_def dll_def split: if_splits)
  have p: "node \<noteq> 0 \<and> heap s node = None \<longrightarrow>
        (\<exists>s'. push_front node v s = Some (Inr (), s') \<and> invariants s' \<and>
              logical_state s' = Populated) \<and>
        (\<exists>s'. push_back node v s = Some (Inr (), s') \<and> invariants s' \<and>
              logical_state s' = Populated)"
  proof
    assume "node \<noteq> 0 \<and> heap s node = None"
    then have n: "node \<noteq> 0" "heap s node = None" by simp_all
    from push_front_dll[OF d n, of v] obtain t where
      t: "push_front node v s = Some (Inr (), t)" "dll t (node # nodes s)" by blast
    from push_back_dll[OF d n, of v] obtain u where
      u: "push_back node v s = Some (Inr (), u)" "dll u (nodes s @ [node])" by blast
    from dll_size_zero[OF t(2)] dll_size_zero[OF u(2)]
    have "logical_state t = Populated" "logical_state u = Populated"
      by (simp_all add: logical_state_def)
    with t(1) u(1) dll_invariants[OF t(2)] dll_invariants[OF u(2)]
    show "(\<exists>s'. push_front node v s = Some (Inr (), s') \<and> invariants s' \<and>
              logical_state s' = Populated) \<and>
        (\<exists>s'. push_back node v s = Some (Inr (), s') \<and> invariants s' \<and>
              logical_state s' = Populated)"
      by blast
  qed
  define vs where "vs = vals (heap s) (nodes s)"
  have g: "get_fwd s = Some (Inr vs, s)" unfolding vs_def by (rule get_fwd_dll[OF d])
  from d have len: "length vs = length (nodes s)" "length (nodes s) = unat (size' s)"
    unfolding vs_def using length_vals[of "heap s" 0 "nodes s" 0] by (simp_all add: dll_def)
  have em: "(logical_state s = Empty) = (vs = [])"
    using dll_size_zero[OF d] len(1) by (auto simp: logical_state_def)
  have ab: "w \<notin> set vs \<longrightarrow> remove w s = Some (Inl ElementNotFound, s)"
    unfolding vs_def using remove_absent_dll[OF d] by blast
  have pr: "w \<in> set vs \<longrightarrow>
           logical_state s = Populated \<and>
           (\<exists>s'. remove w s = Some (Inr (), s') \<and> invariants s' \<and>
                 size' s' = size' s - 1 \<and>
                 logical_state s' = (if size' s = 1 then Empty else Populated))" for w
  proof
    assume w: "w \<in> set vs"
    with em have pop: "logical_state s = Populated"
      by (cases "logical_state s") auto
    from remove_present_first[OF d w[unfolded vs_def]] obtain s' xs a ys where
      x: "nodes s = xs @ a # ys" "remove w s = Some (Inr (), s')" "dll s' (xs @ ys)"
         "size' s' = size' s - 1"
      by blast
    from len(2) x(1) have "(size' s = 1) = (xs @ ys = [])"
      by (auto simp: size_one[symmetric])
    with dll_size_zero[OF x(3)] have "logical_state s' = (if size' s = 1 then Empty else Populated)"
      by (simp add: logical_state_def)
    with pop x(2,4) dll_invariants[OF x(3)] show "logical_state s = Populated \<and>
           (\<exists>s'. remove w s = Some (Inr (), s') \<and> invariants s' \<and>
                 size' s' = size' s - 1 \<and>
                 logical_state s' = (if size' s = 1 then Empty else Populated))"
      by blast
  qed
  have one: "size' s = 1 \<longrightarrow>
           (\<exists>x s'. vs = [x] \<and> remove x s = Some (Inr (), s') \<and> logical_state s' = Empty)"
  proof
    assume o: "size' s = 1"
    with len have "length vs = 1" by simp
    then obtain x where x: "vs = [x]" by (cases vs) auto
    with pr[of x] o show "\<exists>x s'. vs = [x] \<and> remove x s = Some (Inr (), s') \<and> logical_state s' = Empty"
      by auto
  qed
  from len have "length vs = unat (size' s)" by simp
  with g em ab pr[of w] one have r: "\<exists>vs. get_fwd s = Some (Inr vs, s) \<and> length vs = unat (size' s) \<and>
        (logical_state s = Empty) = (vs = []) \<and>
        (w \<notin> set vs \<longrightarrow> remove w s = Some (Inl ElementNotFound, s)) \<and>
        (w \<in> set vs \<longrightarrow>
           logical_state s = Populated \<and>
           (\<exists>s'. remove w s = Some (Inr (), s') \<and> invariants s' \<and>
                 size' s' = size' s - 1 \<and>
                 logical_state s' = (if size' s = 1 then Empty else Populated))) \<and>
        (size' s = 1 \<longrightarrow>
           (\<exists>x s'. vs = [x] \<and> remove x s = Some (Inr (), s') \<and> logical_state s' = Empty))"
    by blast
  from e p r front_returns[OF i] back_returns[OF i] show ?thesis
    by (simp add: size_op_def empty_op_def)
qed

theorem logical_state_transitions_witness:
  "invariants (ThreadSafeList2D Map.empty :: int state) \<and>
   logical_state (ThreadSafeList2D Map.empty :: int state) = Empty \<and>
   (64 :: addr) \<noteq> 0 \<and> heap (ThreadSafeList2D Map.empty :: int state) 64 = None \<and>
   (\<exists>s'. push_front 64 9 (ThreadSafeList2D Map.empty :: int state) = Some (Inr (), s') \<and>
         logical_state s' = Populated) \<and>
   (\<exists>s'. push_back 64 9 (ThreadSafeList2D Map.empty :: int state) = Some (Inr (), s') \<and>
         logical_state s' = Populated) \<and>
   remove 5 (ThreadSafeList2D Map.empty :: int state) =
     Some (Inl ElementNotFound, ThreadSafeList2D Map.empty) \<and>
   invariants single \<and> logical_state single = Populated \<and>
   get_fwd single = Some (Inr [5], single) \<and>
   (\<exists>s'. remove 5 single = Some (Inr (), s') \<and> size' s' = 0 \<and> logical_state s' = Empty) \<and>
   remove 9 single = Some (Inl ElementNotFound, single) \<and>
   invariants example \<and> logical_state example = Populated \<and>
   (\<exists>s'. remove 7 example = Some (Inr (), s') \<and> size' s' = 2 \<and> logical_state s' = Populated)"
proof -
  let ?e = "ThreadSafeList2D Map.empty :: int state"
  have ie: "invariants ?e"
    by (simp add: invariants_def nodes_def ThreadSafeList2D_def)
  have fe: "(64 :: addr) \<noteq> 0" "heap ?e 64 = None" by (simp_all add: ThreadSafeList2D_def)
  have le: "logical_state ?e = Empty" by (simp add: logical_state_def ThreadSafeList2D_def)
  have ge: "get_fwd ?e = Some (Inr [], ?e)"
    by (simp add: get_fwd_def get_fwd_loop.simps ThreadSafeList2D_def)
  have i1: "invariants single"
    by (simp add: invariants_def nodes_def single_def)
  have l1: "logical_state single = Populated" "size' single = 1" "size' single - 1 = 0"
    by (simp_all add: logical_state_def single_def)
  have g1: "get_fwd single = Some (Inr [5], single)"
    by (simp add: get_fwd_def get_fwd_loop.simps single_def)
  have i3: "invariants example"
    by (simp add: invariants_def nodes_def example_def chain_numeral)
  have l3: "logical_state example = Populated" "size' example \<noteq> 1" "size' example - 1 = 2"
    by (simp_all add: logical_state_def example_def)
  have g3: "get_fwd example = Some (Inr [5, 7, 7], example)"
    by (simp add: get_fwd_def get_fwd_loop.simps example_def)
  have a: "(\<exists>s'. push_front 64 9 ?e = Some (Inr (), s') \<and> logical_state s' = Populated) \<and>
           (\<exists>s'. push_back 64 9 ?e = Some (Inr (), s') \<and> logical_state s' = Populated) \<and>
           remove 5 ?e = Some (Inl ElementNotFound, ?e)"
    using logical_state_transitions[OF ie, of 64 9 5] fe ge by auto
  have b: "\<exists>s'. remove 5 single = Some (Inr (), s') \<and> size' s' = 0 \<and> logical_state s' = Empty"
    using logical_state_transitions[OF i1, of 64 9 5] g1 l1 by auto
  have c: "remove 9 single = Some (Inl ElementNotFound, single)"
    using logical_state_transitions[OF i1, of 64 9 9] g1 by auto
  have d: "\<exists>s'. remove 7 example = Some (Inr (), s') \<and> size' s' = 2 \<and> logical_state s' = Populated"
    using logical_state_transitions[OF i3, of 64 9 7] g3 l3 by auto
  from ie le fe a i1 l1(1) g1 b c i3 l3(1) d show ?thesis by blast
qed

text \<open>C10. In every reachable state both traversals return, the backward one is the
  reverse of the forward one, and both are as long as \<^verbatim>\<open>size\<close> says.\<close>

theorem backward_is_reverse_of_forward:
  "reachable s \<Longrightarrow>
   \<exists>vs n. get_fwd s = Some (Inr vs, s) \<and> get_bwd s = Some (Inr (rev vs), s) \<and>
          size_op s = Some (Inr n, s) \<and> length vs = unat n \<and> length (rev vs) = unat n"
proof -
  assume "reachable s"
  then have "invariants s" by (rule reachable_invariants)
  then have d: "dll s (nodes s)" by (rule invariants_dll)
  then have "length (vals (heap s) (nodes s)) = unat (size' s)"
    using length_vals[of "heap s" 0 "nodes s" 0] by (simp add: dll_def)
  with get_fwd_dll[OF d] get_bwd_dll[OF d] show ?thesis by (simp add: size_op_def)
qed

theorem backward_is_reverse_of_forward_witness:
  "reachable example \<and>
   get_fwd example = Some (Inr [5, 7, 7], example) \<and>
   get_bwd example = Some (Inr (rev [5, 7, 7]), example) \<and>
   size_op example = Some (Inr 3, example) \<and> length [5, 7, 7 :: int] = unat (3 :: 64 word)"
proof -
  define s1 :: "int state" where
    "s1 = \<lparr>heap = [16 \<mapsto> \<lparr>prev = 0, value' = 5, next' = 0\<rparr>], head = 16, tail = 16, size' = 1\<rparr>"
  define s2 :: "int state" where
    "s2 = \<lparr>heap = [16 \<mapsto> \<lparr>prev = 0, value' = 5, next' = 48\<rparr>,
                    48 \<mapsto> \<lparr>prev = 16, value' = 7, next' = 0\<rparr>],
           head = 16, tail = 48, size' = 2\<rparr>"
  have p1: "push_back 16 5 (ThreadSafeList2D Map.empty) = Some (Inr (), s1)"
    by (simp add: push_back_def new_Node_def ThreadSafeList2D_def s1_def)
  have p2: "push_back 48 7 s1 = Some (Inr (), s2)"
    by (auto simp: push_back_def new_Node_def set_next_def s1_def s2_def fun_eq_iff)
  have p3: "push_back 32 7 s2 = Some (Inr (), example)"
    by (auto simp: push_back_def new_Node_def set_next_def s2_def example_def fun_eq_iff)
  have r1: "reachable s1"
    by (rule reachable.by_push_back[OF reachable.by_new _ _ p1]) (simp_all add: ThreadSafeList2D_def)
  have r2: "reachable s2"
    by (rule reachable.by_push_back[OF r1 _ _ p2]) (simp_all add: s1_def)
  have r3: "reachable example"
    by (rule reachable.by_push_back[OF r2 _ _ p3]) (simp_all add: s2_def)
  have g: "get_fwd example = Some (Inr [5, 7, 7], example)"
    by (simp add: get_fwd_def get_fwd_loop.simps example_def)
  have z: "size_op example = Some (Inr 3, example)" by (simp add: size_op_def example_def)
  from backward_is_reverse_of_forward[OF r3] r3 g z show ?thesis by auto
qed

end
